theory Spec2Isabelle
  imports Main "HOL-Library.Sublist"
begin

section \<open>Exceptions\<close>

text \<open>
  The exceptions that the module raises, catches or lets through. Python \<open>bytes\<close> are
  modelled as \<open>string\<close> (a list of 8-bit characters).
\<close>

datatype exc =
    Cancelled
  | TooSlowError
  | TimeoutError
  | RuntimeError string
  | ValueError string
  | OSError string
  | DelimiterNotFound string bool
  | MultiError "exc list"
  | ExceptionGroup "exc list"
  | AppError string

section \<open>The socket handle\<close>

text \<open>
  Modelled from the spec: the socket handle behind \<open>self._socket\<close> (class BaseSocket of
  \<open>backends/base.py\<close>, which is not among the sources). The spec describes it as a
  byte-stream endpoint: a read returns whatever is immediately available, zero bytes
  signal that the peer closed its side, a peek returns bytes without consuming them,
  a write may accept fewer bytes than offered, and the handle is closed by \<open>close\<close>.

  \<^item> \<open>incoming\<close>: the bytes still to be read, split into the fragments in which the
    transport delivers them; one physical read returns bytes of the first fragment
    only. No fragment left means that the peer has closed: every read returns zero
    bytes.
  \<^item> \<open>outgoing\<close>: the bytes that the handle has accepted from writes, in order.
  \<^item> \<open>write_cap\<close>, \<open>writes\<close>: the \<open>k\<close>-th write accepts at most \<open>write_cap k\<close>
    bytes; \<open>writes\<close> counts the writes issued so far.
  \<^item> \<open>closes\<close>: how often \<open>close\<close> has been called.
\<close>

record handle =
  incoming :: "string list"
  outgoing :: string
  write_cap :: "nat \<Rightarrow> nat"
  writes :: nat
  closes :: nat

datatype flags = NoFlags | MSG_PEEK

text \<open>
  Modelled from the spec: \<open>recv(max_bytes, flags)\<close> of the missing BaseSocket, one
  physical read of at most \<open>n\<close> bytes. With \<open>MSG_PEEK\<close> the bytes stay in the handle.
\<close>

definition recv :: "nat \<Rightarrow> flags \<Rightarrow> handle \<Rightarrow> string \<times> handle" where
  "recv n fl h =
     (case incoming h of
        [] \<Rightarrow> ([], h)
      | f # fs \<Rightarrow>
          (take n f,
           if fl = MSG_PEEK then h
           else h\<lparr>incoming := (if n < length f then drop n f # fs else fs)\<rparr>))"

text \<open>
  Modelled from the spec: \<open>send(data)\<close> of the missing BaseSocket, one physical write.
  The handle accepts a prefix of the bytes offered and returns how many it accepted.
\<close>

definition send :: "string \<Rightarrow> handle \<Rightarrow> nat \<times> handle" where
  "send data h =
     (let k = min (write_cap h (writes h)) (length data)
      in (k, h\<lparr>outgoing := outgoing h @ take k data, writes := Suc (writes h)\<rparr>))"

text \<open>Modelled from the spec: \<open>close()\<close> of the missing BaseSocket.\<close>

definition close :: "handle \<Rightarrow> handle" where
  "close h = h\<lparr>closes := Suc (closes h)\<rparr>"

section \<open>Python's \<open>bytes.find\<close>\<close>

text \<open>
  \<open>buf.find(sub, start)\<close>: the lowest index \<open>i \<ge> start\<close> with \<open>buf[i:i+len(sub)] == sub\<close>,
  or \<open>-1\<close>. A negative \<open>start\<close> counts from the end of \<open>buf\<close> and is clipped at 0.
  \<open>find_from xs sub i\<close> scans \<open>xs\<close>, the part of the buffer from index \<open>i\<close> on.
\<close>

fun find_from :: "string \<Rightarrow> string \<Rightarrow> nat \<Rightarrow> int" where
  "find_from [] sub i = (if sub = [] then int i else - 1)"
| "find_from (x # xs) sub i =
     (if take (length sub) (x # xs) = sub then int i else find_from xs sub (Suc i))"

definition bytes_find :: "string \<Rightarrow> string \<Rightarrow> int \<Rightarrow> int" where
  "bytes_find buf sub start =
     (let n = int (length buf);
          s = (if start < 0 then max (start + n) 0 else start)
      in if n < s then - 1 else find_from (drop (nat s) buf) sub (nat s))"

section \<open>SocketStream\<close>

subsection \<open>\<open>send_all\<close>\<close>

text \<open>
  \<^verbatim>\<open>
  async def send_all(self, data):
      to_send = len(data)
      while to_send > 0:
          to_send -= await self._socket.send(data)
  \<close>
  The loop may run forever (a handle that accepts nothing), so it is a partial function:
  \<open>None\<close> means that the call never returns.
\<close>

partial_function (option) send_all_loop :: "string \<Rightarrow> int \<Rightarrow> handle \<Rightarrow> handle option" where
  "send_all_loop data to_send h =
     (if 0 < to_send
      then send_all_loop data (to_send - int (fst (send data h))) (snd (send data h))
      else Some h)"

declare send_all_loop.simps [code]

definition send_all :: "string \<Rightarrow> handle \<Rightarrow> handle option" where
  "send_all data h = send_all_loop data (int (length data)) h"

subsection \<open>\<open>receive_exactly\<close>\<close>

text \<open>
  \<^verbatim>\<open>
  async def receive_exactly(self, nbytes):
      buf = bytearray(nbytes)
      view = memoryview(buf)
      while nbytes > 0:
          bytes_read = await self._socket.recv_into(view, nbytes)
          view = view[bytes_read:]
          nbytes -= bytes_read
      return bytes(buf)
  \<close>
  \<open>view\<close> is modelled by the index in \<open>buf\<close> at which the memoryview starts;
  \<open>recv_into(view, nbytes)\<close> is a read of at most \<open>nbytes\<close> bytes stored at the start of
  the view. \<open>bytearray\<close> rejects a negative count.
\<close>

definition recv_into :: "string \<Rightarrow> nat \<Rightarrow> int \<Rightarrow> handle \<Rightarrow> (nat \<times> string) \<times> handle" where
  "recv_into buf view nbytes h =
     (let data = fst (recv (nat nbytes) NoFlags h)
      in ((length data, take view buf @ data @ drop (view + length data) buf),
          snd (recv (nat nbytes) NoFlags h)))"

partial_function (option) receive_exactly_loop ::
  "string \<Rightarrow> nat \<Rightarrow> int \<Rightarrow> handle \<Rightarrow> ((exc + string) \<times> handle) option" where
  "receive_exactly_loop buf view nbytes h =
     (if 0 < nbytes
      then receive_exactly_loop
             (snd (fst (recv_into buf view nbytes h)))
             (view + fst (fst (recv_into buf view nbytes h)))
             (nbytes - int (fst (fst (recv_into buf view nbytes h))))
             (snd (recv_into buf view nbytes h))
      else Some (Inr buf, h))"

declare receive_exactly_loop.simps [code]

definition receive_exactly :: "int \<Rightarrow> handle \<Rightarrow> ((exc + string) \<times> handle) option" where
  "receive_exactly nbytes h =
     (if nbytes < 0 then Some (Inl (ValueError ''negative count''), h)
      else receive_exactly_loop (replicate (nat nbytes) (CHR 0x00)) 0 nbytes h)"

subsection \<open>\<open>receive_until\<close>\<close>

text \<open>
  \<^verbatim>\<open>
  async def receive_until(self, delimiter, max_size):
      offset = 0
      delimiter_size = len(delimiter)
      buf = b''
      while len(buf) < max_size:
          read_size = max_size - len(buf)
          data = await self._socket.recv(read_size, flags=socket.MSG_PEEK)
          buf += data
          index = buf.find(delimiter, offset)
          if index >= 0:
              await self._socket.recv(index + 1)
              return buf[:index]
          else:
              await self._socket.recv(len(data))
              offset += len(data) - delimiter_size + 1

      raise DelimiterNotFound(buf, False)
  \<close>
\<close>

partial_function (option) receive_until_loop ::
  "string \<Rightarrow> int \<Rightarrow> int \<Rightarrow> string \<Rightarrow> handle \<Rightarrow> ((exc + string) \<times> handle) option" where
  "receive_until_loop delimiter max_size offset buf h =
     (if int (length buf) < max_size
      then
        let read_size = max_size - int (length buf);
            data = fst (recv (nat read_size) MSG_PEEK h);
            buf' = buf @ data;
            index = bytes_find buf' delimiter offset
        in if 0 \<le> index
           then Some (Inr (take (nat index) buf'), snd (recv (nat (index + 1)) NoFlags h))
           else receive_until_loop delimiter max_size
                  (offset + (int (length data) - int (length delimiter) + 1)) buf'
                  (snd (recv (length data) NoFlags h))
      else Some (Inl (DelimiterNotFound buf False), h))"

declare receive_until_loop.simps [code]

definition receive_until :: "string \<Rightarrow> int \<Rightarrow> handle \<Rightarrow> ((exc + string) \<times> handle) option" where
  "receive_until delimiter max_size h = receive_until_loop delimiter max_size 0 [] h"

section \<open>Endpoint factories\<close>

text \<open>
  Each factory is an async generator with one \<open>yield\<close>, used as
  \<open>async with factory(...) as x: BLOCK\<close>. A computation on the handle either completes
  (\<open>None\<close>) or raises (\<open>Some e\<close>); the consuming block is such a computation too, and a
  failure raised inside it is thrown into the generator at the \<open>yield\<close>. An early
  return from the block resumes the generator as normal completion does.

  Modelled from the spec: \<open>bind\<close>, \<open>connect\<close>, \<open>listen\<close>, \<open>accept\<close> and \<open>start_tls\<close> of the
  missing BaseSocket are opaque services that succeed or fail; \<open>env\<close> fixes the outcome
  of each.
\<close>

type_synonym block = "handle \<Rightarrow> exc option \<times> handle"

record env =
  bind_result :: "exc option"
  connect_result :: "exc option"
  listen_result :: "exc option"
  accept_result :: "exc option"
  start_tls_result :: "exc option"
  chmod_result :: "exc option"

definition step :: "exc option \<Rightarrow> block" where
  "step r h = (r, h)"

definition skip :: block where
  "skip h = (None, h)"

definition and_then :: "block \<Rightarrow> block \<Rightarrow> block" where
  "and_then m k h = (case m h of (None, h') \<Rightarrow> k h' | (Some e, h') \<Rightarrow> (Some e, h'))"

definition try_finally :: "block \<Rightarrow> (handle \<Rightarrow> handle) \<Rightarrow> block" where
  "try_finally m fin h = (case m h of (r, h') \<Rightarrow> (r, fin h'))"

datatype tls_arg = TlsFlag bool | TlsContext string

text \<open>
  \<^verbatim>\<open>
  async def connect_tcp(address, port, *, tls=False, bind_host=None, bind_port=None):
      sock = create_socket()
      try:
          if bind_host is not None and bind_port is not None:
              await sock.bind((bind_host, bind_port))
          await sock.connect((address, port))
          stream = SocketStream(sock, server_hostname=address)
          if isinstance(tls, SSLContext):
              await stream.start_tls(tls)
          elif tls:
              await stream.start_tls()
          await yield_(stream)
      finally:
          sock.close()
  \<close>
  The handle argument is the socket that \<open>create_socket()\<close> returned.
\<close>

definition connect_tcp ::
  "env \<Rightarrow> tls_arg \<Rightarrow> string option \<Rightarrow> nat option \<Rightarrow> block \<Rightarrow> block" where
  "connect_tcp e tls bind_host bind_port body =
     try_finally
       (and_then (if bind_host \<noteq> None \<and> bind_port \<noteq> None then step (bind_result e) else skip)
       (and_then (step (connect_result e))
       (and_then (case tls of
                    TlsContext c \<Rightarrow> step (start_tls_result e)
                  | TlsFlag b \<Rightarrow> if b then step (start_tls_result e) else skip)
        body)))
       close"

text \<open>
  \<^verbatim>\<open>
  async def connect_unix(path):
      sock = create_socket(socket.AF_UNIX)
      try:
          await sock.connect(path)
          await yield_(SocketStream(sock))
      finally:
          sock.close()
  \<close>
\<close>

definition connect_unix :: "env \<Rightarrow> block \<Rightarrow> block" where
  "connect_unix e body = try_finally (and_then (step (connect_result e)) body) close"

text \<open>
  \<^verbatim>\<open>
  async def create_tcp_server(port, interface, *, ssl_context=None):
      sock = create_socket()
      try:
          await sock.bind((interface, port))
          sock.listen()
          await yield_(SocketStreamServer(sock, ssl_context))
      finally:
          sock.close()
  \<close>
\<close>

definition create_tcp_server :: "env \<Rightarrow> block \<Rightarrow> block" where
  "create_tcp_server e body =
     try_finally
       (and_then (step (bind_result e)) (and_then (step (listen_result e)) body))
       close"

text \<open>
  \<^verbatim>\<open>
  async def create_unix_server(path, *, mode=None):
      sock = create_socket(socket.AF_UNIX)
      try:
          await sock.bind(path)
          if mode is not None:
              os.chmod(path, mode)
          sock.listen()
          await yield_(SocketStreamServer(sock, None))
      finally:
          sock.close()
  \<close>
\<close>

definition create_unix_server :: "env \<Rightarrow> nat option \<Rightarrow> block \<Rightarrow> block" where
  "create_unix_server e mode body =
     try_finally
       (and_then (step (bind_result e))
       (and_then (if mode \<noteq> None then step (chmod_result e) else skip)
       (and_then (step (listen_result e)) body)))
       close"

text \<open>
  \<^verbatim>\<open>
  async def create_udp_socket(*, bind_host=None, bind_port=None,
                              target_host=None, target_port=None):
      sock = create_socket(type=socket.SOCK_DGRAM)
      try:
          if bind_port is not None:
              await sock.bind((bind_host, bind_port))
          if target_host is not None and target_port is not None:
              await sock.connect((target_host, target_port))
          await yield_(DatagramSocket(sock))
      finally:
          sock.close()
  \<close>
\<close>

definition create_udp_socket ::
  "env \<Rightarrow> string option \<Rightarrow> nat option \<Rightarrow> string option \<Rightarrow> nat option \<Rightarrow> block \<Rightarrow> block" where
  "create_udp_socket e bind_host bind_port target_host target_port body =
     try_finally
       (and_then (if bind_port \<noteq> None then step (bind_result e) else skip)
       (and_then (if target_host \<noteq> None \<and> target_port \<noteq> None
                  then step (connect_result e) else skip)
        body))
       close"

text \<open>
  \<^verbatim>\<open>
  async def accept(self):
      sock, addr = await self._socket.accept()
      stream = SocketStream(sock)
      if self._ssl_context:
          await stream.start_tls(self._ssl_context)
      await yield_(stream)
      sock.close()
  \<close>
  The handle argument is the socket of the accepted connection.
\<close>

definition accept :: "env \<Rightarrow> string option \<Rightarrow> block \<Rightarrow> block" where
  "accept e ssl_context body =
     and_then (step (accept_result e))
     (and_then (if ssl_context \<noteq> None then step (start_tls_result e) else skip)
     (and_then body
      (\<lambda>h. (None, close h))))"

section \<open>Awaitable wrappers and cancel scopes\<close>

text \<open>
  \<^verbatim>\<open>
  class DummyAwaitable:
      def __await__(self):
          if False:
              yield

  dummy_awaitable = DummyAwaitable()

  def wrap_as_awaitable(func):
      def wrapper(*args, **kwargs):
          func(*args, **kwargs)
          return dummy_awaitable
      return wrapper
  \<close>
  \<open>await_yields a\<close> lists what the generator \<open>a.__await__()\<close> yields: one entry for each
  time that awaiting \<open>a\<close> suspends. The wrapped function is a synchronous operation on a
  state; its arguments are part of it, and its return value is dropped.
\<close>

datatype awaitable = DummyAwaitable

definition dummy_awaitable :: awaitable where
  "dummy_awaitable = DummyAwaitable"

definition await_yields :: "awaitable \<Rightarrow> unit list" where
  "await_yields a = (if False then [()] else [])"

definition wrap_as_awaitable :: "('s \<Rightarrow> 's) \<Rightarrow> 's \<Rightarrow> awaitable \<times> 's" where
  "wrap_as_awaitable func s = (let s' = func s in (dummy_awaitable, s'))"

text \<open>
  The scheduler's cancel scope, as far as the module uses it: \<open>cancel()\<close> is synchronous
  and marks the scope cancelled. \<open>cancel_calls\<close> counts its invocations.
  \<open>open_cancel_scope\<close> and \<open>TaskGroup.__init__\<close> both replace the method by
  \<open>wrap_as_awaitable(cancel_scope.cancel)\<close>, which is \<open>scope_cancel\<close>.
\<close>

record cancel_scope =
  cancel_called :: bool
  cancel_calls :: nat

definition trio_cancel :: "cancel_scope \<Rightarrow> cancel_scope" where
  "trio_cancel s = s\<lparr>cancel_called := True, cancel_calls := Suc (cancel_calls s)\<rparr>"

definition scope_cancel :: "cancel_scope \<Rightarrow> awaitable \<times> cancel_scope" where
  "scope_cancel = wrap_as_awaitable trio_cancel"

section \<open>Timeouts\<close>

text \<open>
  \<^verbatim>\<open>
  async def fail_after(seconds):
      try:
          with trio.fail_after(seconds) as s:
              await yield_(s)
      except trio.TooSlowError as exc:
          raise TimeoutError().with_traceback(exc.__traceback__) from None
  \<close>
  An exception in flight is the exception with its \<open>__traceback__\<close> and the flag that
  \<open>raise ... from None\<close> sets. The scheduler's \<open>trio.fail_after\<close> is outside the module:
  the enclosed block returns, raises, or is unwound because the deadline fired first,
  in which case the scheduler raises its \<open>TooSlowError\<close>.
\<close>

record raised =
  exc_of :: exc
  traceback :: "string list"
  suppress_context :: bool

datatype 'a block_outcome = Returned 'a | Raised raised | DeadlineFired "string list"

definition trio_fail_after :: "'a block_outcome \<Rightarrow> raised + 'a" where
  "trio_fail_after out =
     (case out of
        Returned v \<Rightarrow> Inr v
      | Raised e \<Rightarrow> Inl e
      | DeadlineFired tb \<Rightarrow>
          Inl \<lparr>exc_of = TooSlowError, traceback = tb, suppress_context = False\<rparr>)"

definition fail_after :: "'a block_outcome \<Rightarrow> raised + 'a" where
  "fail_after out =
     (case trio_fail_after out of
        Inl e \<Rightarrow>
          if exc_of e = TooSlowError
          then Inl \<lparr>exc_of = TimeoutError, traceback = traceback e, suppress_context = True\<rparr>
          else Inl e
      | Inr v \<Rightarrow> Inr v)"

section \<open>Task groups\<close>

text \<open>
  \<^verbatim>\<open>
  class TaskGroup:
      def __init__(self, nursery):
          self._active = True
          self._nursery = nursery
          nursery.cancel_scope.cancel = wrap_as_awaitable(nursery.cancel_scope.cancel)

      async def spawn(self, func, *args, name=None):
          if not self._active:
              raise RuntimeError('This task group is not active; no new tasks can be spawned.')
          self._nursery.start_soon(func, *args, name=name)
  \<close>
  The scheduler's nursery is outside the module: \<open>start_soon\<close> schedules a task, and the
  nursery takes tasks until its block has been left and its last child has finished.
  \<open>started\<close> lists the tasks scheduled, by name.
\<close>

record trio_nursery =
  started :: "string list"
  scope :: cancel_scope

definition start_soon :: "string \<Rightarrow> trio_nursery \<Rightarrow> trio_nursery" where
  "start_soon func n = n\<lparr>started := started n @ [func]\<rparr>"

record task_group =
  active :: bool
  nursery :: trio_nursery

definition TaskGroup :: "trio_nursery \<Rightarrow> task_group" where
  "TaskGroup n = \<lparr>active = True, nursery = n\<rparr>"

definition inactive_error :: exc where
  "inactive_error = RuntimeError ''This task group is not active; no new tasks can be spawned.''"

definition spawn :: "string \<Rightarrow> task_group \<Rightarrow> (exc + unit) \<times> task_group" where
  "spawn func tg =
     (if \<not> active tg then (Inl inactive_error, tg)
      else (Inr (), tg\<lparr>nursery := start_soon func (nursery tg)\<rparr>))"

text \<open>
  \<^verbatim>\<open>
  async def create_task_group():
      try:
          async with trio.open_nursery() as nursery:
              tg = TaskGroup(nursery)
              await yield_(tg)
              tg._active = False
      except trio.MultiError as exc:
          raise ExceptionGroup(exc.exceptions) from None
  \<close>
  \<open>defining_block body n\<close> runs lines 93 to 95: the group is created, the group's defining
  block \<open>body\<close> runs, and a failure raised in it is thrown into the generator at the
  \<open>yield\<close>. It returns the group as it is when the block has been left and the nursery
  starts to wait for the children.

  The nursery's exit is the scheduler's. It waits for the children and collects the
  exception that left the block, if any, and the exceptions that the children ended
  with. \<open>Cancelled\<close> stands for the cancellation of the nursery's own scope, which the
  nursery drops; what is left are the \<open>failures\<close>. The nursery raises nothing when
  there is no failure, the failure itself when there is one, and a \<open>MultiError\<close> of all
  of them otherwise.
\<close>

definition defining_block ::
  "(task_group \<Rightarrow> exc option \<times> task_group) \<Rightarrow> trio_nursery \<Rightarrow> exc option \<times> task_group" where
  "defining_block body n =
     (case body (TaskGroup n) of
        (None, tg) \<Rightarrow> (None, tg\<lparr>active := False\<rparr>)
      | (Some e, tg) \<Rightarrow> (Some e, tg))"

definition failures :: "exc option \<Rightarrow> exc list \<Rightarrow> exc list" where
  "failures block_error child_errors =
     filter (\<lambda>e. e \<noteq> Cancelled)
       ((case block_error of None \<Rightarrow> [] | Some e \<Rightarrow> [e]) @ child_errors)"

definition nursery_exit :: "exc option \<Rightarrow> exc list \<Rightarrow> exc option" where
  "nursery_exit block_error child_errors =
     (case failures block_error child_errors of
        [] \<Rightarrow> None
      | [e] \<Rightarrow> Some e
      | e # es \<Rightarrow> Some (MultiError (e # es)))"

definition create_task_group ::
  "(task_group \<Rightarrow> exc option \<times> task_group) \<Rightarrow> exc list \<Rightarrow> trio_nursery
     \<Rightarrow> exc option \<times> task_group" where
  "create_task_group body child_errors n =
     (case defining_block body n of
        (r, tg) \<Rightarrow>
          (case nursery_exit r child_errors of
             Some (MultiError es) \<Rightarrow> (Some (ExceptionGroup es), tg)
           | x \<Rightarrow> (x, tg)))"

section \<open>Properties of \<open>send_all\<close>\<close>

lemma send_all_loop_done: "to_send \<le> 0 \<Longrightarrow> send_all_loop data to_send h = Some h"
  by (subst send_all_loop.simps) simp

text \<open>
  A handle that takes the whole payload in one write receives exactly the payload.
\<close>

lemma send_all_whole_buffer:
  assumes "length data \<le> write_cap h (writes h)"
  shows "send_all data h
           = Some (if data = [] then h
                   else h\<lparr>outgoing := outgoing h @ data, writes := Suc (writes h)\<rparr>)"
proof (cases "data = []")
  case True
  then show ?thesis by (simp add: send_all_def send_all_loop_done)
next
  case False
  have s: "send data h = (length data, h\<lparr>outgoing := outgoing h @ data, writes := Suc (writes h)\<rparr>)"
    using assms by (simp add: send_def min_def)
  show ?thesis
    unfolding send_all_def using False
    by (subst send_all_loop.simps) (simp add: s send_all_loop_done)
qed

text \<open>
  Every round offers \<open>data\<close> from its first byte again: a handle that takes one byte per
  write receives the first byte of the payload, once for each byte of the payload.
\<close>

lemma send_all_loop_one_byte:
  assumes "write_cap h = (\<lambda>k. 1)"
  shows "send_all_loop (x # xs) (int n) h
           = Some (h\<lparr>outgoing := outgoing h @ replicate n x, writes := writes h + n\<rparr>)"
  using assms
proof (induction n arbitrary: h)
  case 0
  then show ?case by (simp add: send_all_loop_done)
next
  case (Suc n)
  have s: "send (x # xs) h = (1, h\<lparr>outgoing := outgoing h @ [x], writes := Suc (writes h)\<rparr>)"
    using Suc.prems by (simp add: send_def)
  have "send_all_loop (x # xs) (int (Suc n)) h
          = send_all_loop (x # xs) (int n) (h\<lparr>outgoing := outgoing h @ [x], writes := Suc (writes h)\<rparr>)"
    by (subst send_all_loop.simps) (simp add: s)
  also have "\<dots> = Some (h\<lparr>outgoing := outgoing h @ replicate (Suc n) x, writes := writes h + Suc n\<rparr>)"
    using Suc.prems by (subst Suc.IH) (simp_all add: replicate_app_Cons_same)
  finally show ?case .
qed

lemma send_all_one_byte:
  assumes "write_cap h = (\<lambda>k. 1)"
  shows "send_all (x # xs) h
           = Some (h\<lparr>outgoing := outgoing h @ replicate (Suc (length xs)) x,
                     writes := writes h + Suc (length xs)\<rparr>)"
  using send_all_loop_one_byte [OF assms, of x xs "Suc (length xs)"]
  by (simp add: send_all_def)

text \<open>
  Claim C1. The claim: for every payload and every schedule of partial acceptances,
  the bytes that the handle accepts from \<open>send_all(data)\<close> are exactly the bytes of
  \<open>data\<close>, once and in order. The code at the payload \<open>abc\<close> and a handle that accepts one
  byte per write: the call returns, and the handle has accepted \<open>aaa\<close>.
\<close>

theorem send_all_resends_first_byte:
  "map_option outgoing
     (send_all ''abc''
        \<lparr>incoming = [], outgoing = [], write_cap = (\<lambda>k. 1), writes = 0, closes = 0\<rparr>)
   = Some ''aaa''"
  by code_simp

text \<open>With two bytes per write the handle accepts four bytes for a payload of three.\<close>

lemma send_all_two_bytes_per_write:
  "map_option outgoing
     (send_all ''abc''
        \<lparr>incoming = [], outgoing = [], write_cap = (\<lambda>k. 2), writes = 0, closes = 0\<rparr>)
   = Some ''abab''"
  by code_simp

section \<open>Properties of \<open>receive_exactly\<close>\<close>

lemma recv_closed: "incoming h = [] \<Longrightarrow> recv n fl h = ([], h)"
  by (simp add: recv_def)

lemma recv_into_closed:
  "incoming h = [] \<Longrightarrow> recv_into buf view nbytes h = ((0, buf), h)"
  by (simp add: recv_into_def recv_closed)

lemma length_recv: "length (fst (recv n fl h)) \<le> n"
  by (simp add: recv_def split: list.splits)

text \<open>
  A call that returns has not met a closed handle with bytes still missing: on a closed
  handle the loop reads zero bytes and goes round again, in the same state.
\<close>

lemma receive_exactly_loop_Some_open:
  assumes "receive_exactly_loop buf view nbytes h = Some y"
  shows "\<not> (0 < nbytes \<and> incoming h = [])"
  using assms
proof (rule receive_exactly_loop.raw_induct [rotated,
        where P = "\<lambda>buf view nbytes h y. \<not> (0 < nbytes \<and> incoming h = [])"])
  fix loop :: "string \<Rightarrow> nat \<Rightarrow> int \<Rightarrow> handle \<Rightarrow> ((exc + string) \<times> handle) option"
    and buf view nbytes h y
  assume IH: "\<And>buf view nbytes h y. loop buf view nbytes h = Some y
                \<Longrightarrow> \<not> (0 < nbytes \<and> incoming h = [])"
    and eq: "(if 0 < nbytes
      then loop (snd (fst (recv_into buf view nbytes h)))
             (view + fst (fst (recv_into buf view nbytes h)))
             (nbytes - int (fst (fst (recv_into buf view nbytes h))))
             (snd (recv_into buf view nbytes h))
      else Some (Inr buf, h)) = Some y"
  show "\<not> (0 < nbytes \<and> incoming h = [])"
  proof
    assume a: "0 < nbytes \<and> incoming h = []"
    with eq have "loop buf view nbytes h = Some y"
      by (simp add: recv_into_closed)
    from IH [OF this] a show False by simp
  qed
qed

lemma receive_exactly_loop_closed:
  "0 < nbytes \<Longrightarrow> incoming h = [] \<Longrightarrow> receive_exactly_loop buf view nbytes h = None"
  using receive_exactly_loop_Some_open [of buf view nbytes h]
  by (cases "receive_exactly_loop buf view nbytes h") auto

text \<open>A call that returns, returns \<open>nbytes\<close> bytes.\<close>

lemma receive_exactly_loop_result:
  assumes "receive_exactly_loop buf view nbytes h = Some y"
  shows "view + nat nbytes = length buf \<longrightarrow> (\<exists>bs. fst y = Inr bs \<and> length bs = length buf)"
  using assms
proof (rule receive_exactly_loop.raw_induct [rotated,
        where P = "\<lambda>buf view nbytes h y.
          view + nat nbytes = length buf \<longrightarrow> (\<exists>bs. fst y = Inr bs \<and> length bs = length buf)"])
  fix loop :: "string \<Rightarrow> nat \<Rightarrow> int \<Rightarrow> handle \<Rightarrow> ((exc + string) \<times> handle) option"
    and buf view nbytes h y
  assume IH: "\<And>buf view nbytes h y. loop buf view nbytes h = Some y
          \<Longrightarrow> view + nat nbytes = length buf \<longrightarrow> (\<exists>bs. fst y = Inr bs \<and> length bs = length buf)"
    and eq: "(if 0 < nbytes
      then loop (snd (fst (recv_into buf view nbytes h)))
             (view + fst (fst (recv_into buf view nbytes h)))
             (nbytes - int (fst (fst (recv_into buf view nbytes h))))
             (snd (recv_into buf view nbytes h))
      else Some (Inr buf, h)) = Some y"
  show "view + nat nbytes = length buf \<longrightarrow> (\<exists>bs. fst y = Inr bs \<and> length bs = length buf)"
  proof
    assume inv: "view + nat nbytes = length buf"
    show "\<exists>bs. fst y = Inr bs \<and> length bs = length buf"
    proof (cases "0 < nbytes")
      case False
      with eq show ?thesis by auto
    next
      case True
      define data where "data = fst (recv (nat nbytes) NoFlags h)"
      have len: "length data \<le> nat nbytes"
        unfolding data_def by (rule length_recv)
      have r: "fst (recv_into buf view nbytes h)
                 = (length data, take view buf @ data @ drop (view + length data) buf)"
        by (simp add: recv_into_def data_def Let_def)
      let ?buf' = "take view buf @ data @ drop (view + length data) buf"
      have l': "length ?buf' = length buf" using inv len by simp
      from eq True have "loop ?buf' (view + length data) (nbytes - int (length data))
                           (snd (recv_into buf view nbytes h)) = Some y"
        by (simp add: r)
      from IH [OF this] have "view + length data + nat (nbytes - int (length data)) = length ?buf'
          \<longrightarrow> (\<exists>bs. fst y = Inr bs \<and> length bs = length ?buf')" .
      moreover have "view + length data + nat (nbytes - int (length data)) = length ?buf'"
        using inv len True l' by linarith
      ultimately show ?thesis using l' by simp
    qed
  qed
qed

lemma receive_exactly_returns_nbytes:
  assumes "0 \<le> nbytes" "receive_exactly nbytes h = Some (r, h')"
  shows "\<exists>bs. r = Inr bs \<and> int (length bs) = nbytes"
  using assms receive_exactly_loop_result [of "replicate (nat nbytes) (CHR 0x00)" 0 nbytes h "(r, h')"]
  by (auto simp: receive_exactly_def)

text \<open>
  Claim C3. The claim: \<open>receive_exactly(n)\<close> returns exactly \<open>n\<close> bytes or fails, and it
  fails when the handle reports closure (a read of zero bytes) before \<open>n\<close> bytes have
  accumulated. The code at \<open>n = 3\<close> and a peer that sends \<open>ab\<close> and closes: the call
  neither fails nor returns.
\<close>

theorem receive_exactly_hangs_on_close:
  "receive_exactly 3
     \<lparr>incoming = [''ab''], outgoing = [], write_cap = (\<lambda>k. 1), writes = 0, closes = 0\<rparr>
   = None"
  unfolding receive_exactly_def
  apply simp
  apply (subst receive_exactly_loop.simps)
  apply (simp add: recv_into_def recv_def receive_exactly_loop_closed)
  done

section \<open>Properties of the endpoint factories\<close>

lemma closes_step: "closes (snd (step r h)) = closes h"
  by (simp add: step_def)

lemma closes_skip: "closes (snd (skip h)) = closes h"
  by (simp add: skip_def)

lemma closes_and_then:
  assumes "\<And>h. closes (snd (m h)) = closes h" "\<And>h. closes (snd (k h)) = closes h"
  shows "closes (snd (and_then m k h)) = closes h"
proof (cases "m h")
  case (Pair r h')
  with assms(1) [of h] have "closes h' = closes h" by simp
  with Pair assms(2) [of h'] show ?thesis
    by (cases r) (simp_all add: and_then_def)
qed

lemma closes_try_finally_close:
  assumes "\<And>h. closes (snd (m h)) = closes h"
  shows "closes (snd (try_finally m close h)) = Suc (closes h)"
  using assms [of h] by (cases "m h") (simp add: try_finally_def close_def)

text \<open>
  The five factories with \<open>try ... finally\<close> close the socket once, whatever the
  outcome of each step and of the consuming block (which does not close the socket
  itself).
\<close>

lemma scoped_helpers_close_once:
  assumes body: "\<And>h. closes (snd (body h)) = closes h"
  shows "closes (snd (connect_tcp e tls bind_host bind_port body h)) = Suc (closes h)"
    and "closes (snd (connect_unix e body h)) = Suc (closes h)"
    and "closes (snd (create_tcp_server e body h)) = Suc (closes h)"
    and "closes (snd (create_unix_server e mode body h)) = Suc (closes h)"
    and "closes (snd (create_udp_socket e bind_host bind_port target_host target_port body h))
           = Suc (closes h)"
  unfolding connect_tcp_def connect_unix_def create_tcp_server_def create_unix_server_def
    create_udp_socket_def
  by (intro closes_try_finally_close closes_and_then closes_step closes_skip body
        | simp split: tls_arg.split add: closes_step closes_skip)+

lemma accept_closes_once_on_completion:
  assumes "accept_result e = None" "ssl_context = None \<or> start_tls_result e = None"
    and "body h = (None, h')"
  shows "accept e ssl_context body h = (None, close h')"
  using assms by (auto simp: accept_def and_then_def step_def skip_def)

text \<open>
  Claim C4. The claim: every scoped-acquisition helper and the accept helper of a
  listening endpoint close the socket exactly once on every exit path of the consuming
  block, a failure raised inside the block included. The code of \<open>accept\<close> at a
  connection that is accepted without TLS and a consuming block that raises: the error
  leaves \<open>accept\<close> and the socket has been closed zero times.
\<close>

theorem accept_leaves_socket_open_on_failure:
  "accept
     \<lparr>bind_result = None, connect_result = None, listen_result = None, accept_result = None,
      start_tls_result = None, chmod_result = None\<rparr>
     None
     (\<lambda>h. (Some (AppError ''boom''), h))
     \<lparr>incoming = [], outgoing = [], write_cap = (\<lambda>k. 1), writes = 0, closes = 0\<rparr>
   = (Some (AppError ''boom''),
      \<lparr>incoming = [], outgoing = [], write_cap = (\<lambda>k. 1), writes = 0, closes = 0\<rparr>)"
  by (simp add: accept_def and_then_def step_def skip_def)

section \<open>Properties of the awaitable wrapper\<close>

text \<open>
  Claim C10. For a cancel operation wrapped by \<open>wrap_as_awaitable\<close>: the call applies the
  wrapped function once (the state after the call is the state after one application;
  for a scope's cancel the invocation count goes up by one) and returns the shared
  \<open>dummy_awaitable\<close>; awaiting the result yields zero times; and the scope is cancelled
  in the state that the call itself leaves, whether or not the result is awaited.
\<close>

theorem wrap_as_awaitable_cancel:
  "wrap_as_awaitable func st = (dummy_awaitable, func st)
   \<and> fst (scope_cancel s) = dummy_awaitable
   \<and> snd (scope_cancel s) = trio_cancel s
   \<and> cancel_calls (snd (scope_cancel s)) = Suc (cancel_calls s)
   \<and> cancel_called (snd (scope_cancel s))
   \<and> length (await_yields (fst (scope_cancel s))) = 0"
  by (simp add: wrap_as_awaitable_def scope_cancel_def trio_cancel_def await_yields_def)

section \<open>Properties of \<open>fail_after\<close>\<close>

lemma fail_after_passes_result: "fail_after (Returned v) = Inr v"
  by (simp add: fail_after_def trio_fail_after_def)

lemma fail_after_passes_other_errors:
  "exc_of e \<noteq> TooSlowError \<Longrightarrow> fail_after (Raised e) = Inl e"
  by (simp add: fail_after_def trio_fail_after_def)

text \<open>
  Claim C9. When the deadline of \<open>fail_after\<close> fires before the enclosed operation
  completes, the scheduler's too-slow signal is translated into \<open>TimeoutError\<close>, raised
  with the traceback of the signal (and with the signal itself suppressed as context);
  no result of the enclosed operation is surfaced.
\<close>

theorem fail_after_translates_too_slow:
  "fail_after (DeadlineFired tb)
     = Inl \<lparr>exc_of = TimeoutError, traceback = tb, suppress_context = True\<rparr>
   \<and> (\<forall>v. fail_after (DeadlineFired tb) \<noteq> Inr v)"
  by (simp add: fail_after_def trio_fail_after_def)

section \<open>Properties of task groups\<close>

lemma spawn_inactive: "\<not> active tg \<Longrightarrow> spawn func tg = (Inl inactive_error, tg)"
  by (simp add: spawn_def)

lemma spawn_active:
  "active tg \<Longrightarrow> spawn func tg = (Inr (), tg\<lparr>nursery := start_soon func (nursery tg)\<rparr>)"
  by (simp add: spawn_def)

text \<open>
  The flag is cleared when the defining block completes, and only then: a block that is
  left by an exception skips line 95.
\<close>

lemma defining_block_completed:
  "body (TaskGroup n) = (None, tg) \<Longrightarrow> defining_block body n = (None, tg\<lparr>active := False\<rparr>)"
  by (simp add: defining_block_def)

lemma defining_block_failed:
  "body (TaskGroup n) = (Some e, tg) \<Longrightarrow> defining_block body n = (Some e, tg)"
  by (simp add: defining_block_def)

lemma spawn_after_completed_block:
  assumes "body (TaskGroup n) = (None, tg)"
  shows "spawn func (snd (defining_block body n))
           = (Inl inactive_error, snd (defining_block body n))"
  using assms by (simp add: defining_block_def spawn_def)

text \<open>
  Claim C8. The claim: for every task group, \<open>spawn\<close> after the group's defining block has
  exited raises the inactive-group error and does not schedule the task. The code at a
  group whose defining block raises: the block has been left, the flag is still true, and
  a \<open>spawn\<close> from a child that is still running schedules the task without error.
\<close>

theorem spawn_after_failed_block_schedules:
  "spawn ''late''
     (snd (defining_block (\<lambda>tg. (Some (AppError ''boom''), tg))
             \<lparr>started = [], scope = \<lparr>cancel_called = False, cancel_calls = 0\<rparr>\<rparr>))
   = (Inr (),
      \<lparr>active = True,
       nursery = \<lparr>started = [''late''], scope = \<lparr>cancel_called = False, cancel_calls = 0\<rparr>\<rparr>\<rparr>)"
  by (simp add: spawn_def defining_block_def TaskGroup_def start_soon_def)

lemma defining_block_result: "fst (defining_block body n) = fst (body (TaskGroup n))"
  by (cases "body (TaskGroup n)") (auto simp: defining_block_def split: option.splits)

lemma nursery_exit_many:
  "2 \<le> length (failures r errs) \<Longrightarrow> nursery_exit r errs = Some (MultiError (failures r errs))"
  by (cases "failures r errs"; cases "tl (failures r errs)") (auto simp: nursery_exit_def)

lemma nursery_exit_one: "failures r errs = [e] \<Longrightarrow> nursery_exit r errs = Some e"
  by (simp add: nursery_exit_def)

lemma create_task_group_result:
  "fst (create_task_group body errs n)
     = (case nursery_exit (fst (body (TaskGroup n))) errs of
          Some (MultiError es) \<Rightarrow> Some (ExceptionGroup es)
        | x \<Rightarrow> x)"
proof -
  obtain r tg where d: "defining_block body n = (r, tg)" by (cases "defining_block body n")
  then have "r = fst (body (TaskGroup n))" using defining_block_result [of body n] by simp
  with d show ?thesis
    by (simp add: create_task_group_def split: option.splits exc.splits)
qed

text \<open>
  When the defining block completes, or is unwound by the cancellation of the group's
  own scope, the failures are the errors that the children failed with.
\<close>

lemma failures_of_children:
  assumes "r = None \<or> r = Some Cancelled"
  shows "failures r errs = filter (\<lambda>e. e \<noteq> Cancelled) errs"
  using assms by (auto simp: failures_def)

text \<open>
  Claim C7 as stated fails: the error that leaves the defining block is a failure of
  the group as the children's errors are. A group whose block raises \<open>b\<close> while exactly
  one child fails with \<open>a\<close> raises the aggregate of both, not \<open>a\<close> unwrapped.
\<close>

theorem task_group_one_child_counterexample:
  "fst (create_task_group (\<lambda>tg. (Some (AppError ''b''), tg)) [AppError ''a'']
          \<lparr>started = [], scope = \<lparr>cancel_called = False, cancel_calls = 0\<rparr>\<rparr>)
     = Some (ExceptionGroup [AppError ''b'', AppError ''a''])"
  by (simp add: create_task_group_result nursery_exit_def failures_def)

text \<open>
  Claim C7, as amended. The failures of a task group are the errors that its children
  failed with, and the error that left the defining block if the block raised one;
  cancellations of the group's own scope do not count. At the group's exit, when there
  are two or more failures, one \<open>ExceptionGroup\<close> is raised that holds every failure, so
  every child's error is preserved; when there is exactly one failure (not itself the
  scheduler's \<open>MultiError\<close>), that error is raised as it is. So the error of a single
  failing child is raised unwrapped when the block completes or is only cancelled.
\<close>

theorem task_group_exit_errors:
  "(2 \<le> length (failures (fst (body (TaskGroup n))) errs) \<longrightarrow>
      fst (create_task_group body errs n)
        = Some (ExceptionGroup (failures (fst (body (TaskGroup n))) errs))
      \<and> set (filter (\<lambda>e. e \<noteq> Cancelled) errs)
          \<subseteq> set (failures (fst (body (TaskGroup n))) errs))
   \<and> (failures (fst (body (TaskGroup n))) errs = [e] \<and> (\<forall>es. e \<noteq> MultiError es) \<longrightarrow>
        fst (create_task_group body errs n) = Some e)"
proof (intro conjI impI)
  assume "2 \<le> length (failures (fst (body (TaskGroup n))) errs)"
  from nursery_exit_many [OF this]
  show "fst (create_task_group body errs n)
          = Some (ExceptionGroup (failures (fst (body (TaskGroup n))) errs))"
    by (simp add: create_task_group_result)
next
  show "set (filter (\<lambda>e. e \<noteq> Cancelled) errs) \<subseteq> set (failures (fst (body (TaskGroup n))) errs)"
    by (auto simp: failures_def)
next
  assume a: "failures (fst (body (TaskGroup n))) errs = [e] \<and> (\<forall>es. e \<noteq> MultiError es)"
  then have "nursery_exit (fst (body (TaskGroup n))) errs = Some e"
    by (simp add: nursery_exit_one)
  with a show "fst (create_task_group body errs n) = Some e"
    by (cases e) (simp_all add: create_task_group_result)
qed

theorem task_group_exit_errors_witness:
  "fst (create_task_group (\<lambda>tg. (None, tg)) [AppError ''a'', AppError ''b'']
          \<lparr>started = [], scope = \<lparr>cancel_called = False, cancel_calls = 0\<rparr>\<rparr>)
     = Some (ExceptionGroup [AppError ''a'', AppError ''b''])
   \<and> fst (create_task_group (\<lambda>tg. (Some Cancelled, tg)) [AppError ''a'', Cancelled]
          \<lparr>started = [], scope = \<lparr>cancel_called = False, cancel_calls = 0\<rparr>\<rparr>)
     = Some (AppError ''a'')"
  using task_group_exit_errors [of "\<lambda>tg. (None, tg)"
          "\<lparr>started = [], scope = \<lparr>cancel_called = False, cancel_calls = 0\<rparr>\<rparr>"
          "[AppError ''a'', AppError ''b'']"]
        task_group_exit_errors [of "\<lambda>tg. (Some Cancelled, tg)"
          "\<lparr>started = [], scope = \<lparr>cancel_called = False, cancel_calls = 0\<rparr>\<rparr>"
          "[AppError ''a'', Cancelled]" "AppError ''a''"]
  by (simp add: failures_def)

section \<open>Properties of \<open>receive_until\<close>\<close>

text \<open>
  Claim C2. The claim: when the first delimiter occurrence ends within \<open>max_size\<close> bytes,
  \<open>receive_until\<close> consumes exactly the bytes up through the whole delimiter, for a
  delimiter of any length. The code consumes \<open>index + 1\<close> bytes from where the handle
  stands. At the delimiter CR LF and the stream \<open>ab CR LF cd\<close> in one fragment it returns
  \<open>ab\<close> and leaves \<open>LF cd\<close> in the handle: the second byte of the delimiter is not consumed.
  At the delimiter LF and the stream \<open>abc LF XYZ\<close> in the fragments \<open>ab\<close> and \<open>c LF XYZ\<close> it
  returns \<open>abc\<close> and leaves \<open>Z\<close>: \<open>XY\<close>, behind the delimiter, is consumed too.
\<close>

theorem receive_until_consumes_wrong_bytes:
  "map_option (apsnd incoming)
     (receive_until [CHR 0x0D, CHR 0x0A] 10
        \<lparr>incoming = [''ab'' @ [CHR 0x0D, CHR 0x0A] @ ''cd''], outgoing = [],
         write_cap = (\<lambda>k. 1), writes = 0, closes = 0\<rparr>)
   = Some (Inr ''ab'', [CHR 0x0A # ''cd''])
   \<and> map_option (apsnd incoming)
     (receive_until [CHR 0x0A] 10
        \<lparr>incoming = [''ab'', ''c'' @ [CHR 0x0A] @ ''XYZ''], outgoing = [],
         write_cap = (\<lambda>k. 1), writes = 0, closes = 0\<rparr>)
   = Some (Inr ''abc'', [''Z''])"
  by code_simp

subsection \<open>What \<open>bytes_find\<close> computes\<close>

lemma take_eq_prefix: "take (length sub) xs = sub \<longleftrightarrow> prefix sub xs"
  by (metis append_eq_conv_conj prefix_def append_take_drop_id)

lemma find_from_first:
  assumes "prefix sub (drop j xs)" "\<forall>k<j. \<not> prefix sub (drop k xs)"
  shows "find_from xs sub i = int (i + j)"
  using assms
proof (induction xs arbitrary: i j)
  case Nil
  then have "sub = []" by simp
  with Nil have "j = 0" by (cases j) auto
  with \<open>sub = []\<close> show ?case by simp
next
  case (Cons x xs)
  show ?case
  proof (cases j)
    case 0
    with Cons.prems show ?thesis by (simp add: take_eq_prefix)
  next
    case (Suc j')
    with Cons.prems have n0: "\<not> prefix sub (x # xs)" by (metis drop0 zero_less_Suc)
    have p: "prefix sub (drop j' xs)" using Cons.prems Suc by simp
    have q: "\<forall>k<j'. \<not> prefix sub (drop k xs)"
    proof (intro allI impI)
      fix k assume "k < j'"
      then have "Suc k < j" using Suc by simp
      with Cons.prems(2) have "\<not> prefix sub (drop (Suc k) (x # xs))" by blast
      then show "\<not> prefix sub (drop k xs)" by simp
    qed
    from Cons.IH [OF p q, of "Suc i"] n0 Suc show ?thesis
      by (simp add: take_eq_prefix del: take_Suc_Cons)
  qed
qed

lemma find_from_none:
  assumes "\<forall>j. \<not> prefix sub (drop j xs)"
  shows "find_from xs sub i = - 1"
  using assms
proof (induction xs arbitrary: i)
  case Nil
  then show ?case by auto
next
  case (Cons x xs)
  from Cons.prems have n0: "\<not> prefix sub (x # xs)" by (metis drop0)
  have "\<forall>j. \<not> prefix sub (drop j xs)"
  proof
    fix j
    from Cons.prems have "\<not> prefix sub (drop (Suc j) (x # xs))" by blast
    then show "\<not> prefix sub (drop j xs)" by simp
  qed
  from Cons.IH [OF this, of "Suc i"] n0 show ?case
    by (simp add: take_eq_prefix del: take_Suc_Cons)
qed

lemma sublist_iff_prefix_drop: "sublist sub xs \<longleftrightarrow> (\<exists>j. prefix sub (drop j xs))"
proof
  assume "sublist sub xs"
  then obtain ps ss where "xs = ps @ sub @ ss" by (auto simp: sublist_def)
  then have "prefix sub (drop (length ps) xs)" by simp
  then show "\<exists>j. prefix sub (drop j xs)" ..
next
  assume "\<exists>j. prefix sub (drop j xs)"
  then obtain j zs where "drop j xs = sub @ zs" by (auto simp: prefix_def)
  then have "xs = take j xs @ sub @ zs" by (metis append_take_drop_id)
  then show "sublist sub xs" by (auto simp: sublist_def)
qed

lemma bytes_find_none:
  assumes "\<not> sublist sub buf"
  shows "bytes_find buf sub start = - 1"
proof -
  have "find_from (drop s buf) sub s = - 1" for s
  proof (rule find_from_none, rule allI)
    fix j
    from assms have "\<not> prefix sub (drop (j + s) buf)"
      by (auto simp: sublist_iff_prefix_drop)
    then show "\<not> prefix sub (drop j (drop s buf))" by simp
  qed
  then show ?thesis by (simp add: bytes_find_def Let_def)
qed

lemma bytes_find_first:
  assumes "prefix sub (drop p buf)" "\<forall>q<p. \<not> prefix sub (drop q buf)"
    and "0 \<le> start" "start \<le> int p" "p \<le> length buf"
  shows "bytes_find buf sub start = int p"
proof -
  define s where "s = nat start"
  have s: "start = int s" "s \<le> p" using assms by (simp_all add: s_def)
  have a: "prefix sub (drop (p - s) (drop s buf))" using assms(1) s by simp
  have b: "\<forall>k<p - s. \<not> prefix sub (drop k (drop s buf))"
  proof (intro allI impI)
    fix k assume "k < p - s"
    then have "k + s < p" by simp
    with assms(2) have "\<not> prefix sub (drop (k + s) buf)" by blast
    then show "\<not> prefix sub (drop k (drop s buf))" by simp
  qed
  from find_from_first [OF a b, of s] s assms(5) show ?thesis
    by (simp add: bytes_find_def Let_def)
qed

subsection \<open>The rounds of \<open>receive_until\<close>\<close>

text \<open>One round of the loop: a peek, and then a read that consumes what was peeked.\<close>

lemma peek_consume:
  fixes n :: nat and h :: handle
  defines "data \<equiv> fst (recv n MSG_PEEK h)"
  defines "h' \<equiv> snd (recv (length data) NoFlags h)"
  shows "concat (incoming h) = data @ concat (incoming h')"
    and "length data \<le> n"
    and "incoming h \<noteq> [] \<Longrightarrow> 0 < n \<Longrightarrow>
           length (concat (incoming h')) + length (incoming h')
             < length (concat (incoming h)) + length (incoming h)"
    and "incoming h \<noteq> [] \<Longrightarrow> length data < n \<Longrightarrow>
           data = hd (incoming h) \<and> incoming h' = tl (incoming h)"
proof -
  show "concat (incoming h) = data @ concat (incoming h')"
    unfolding data_def h'_def by (cases "incoming h") (auto simp: recv_def)
  show "length data \<le> n"
    unfolding data_def by (cases "incoming h") (auto simp: recv_def)
  show "length (concat (incoming h')) + length (incoming h')
             < length (concat (incoming h)) + length (incoming h)"
    if "incoming h \<noteq> []" "0 < n"
    using that unfolding data_def h'_def
    by (cases "incoming h") (auto simp: recv_def min_def)
  show "data = hd (incoming h) \<and> incoming h' = tl (incoming h)"
    if "incoming h \<noteq> []" "length data < n"
    using that unfolding data_def h'_def
    by (cases "incoming h") (auto simp: recv_def min_def split: if_splits)
qed

text \<open>The three ways through one round of \<open>receive_until_loop\<close>.\<close>

lemma receive_until_loop_full:
  "\<not> int (length buf) < max_size \<Longrightarrow>
     receive_until_loop delimiter max_size offset buf h
       = Some (Inl (DelimiterNotFound buf False), h)"
  by (subst receive_until_loop.simps) simp

lemma receive_until_loop_found:
  assumes "int (length buf) < max_size"
    and "data = fst (recv (nat (max_size - int (length buf))) MSG_PEEK h)"
    and "bytes_find (buf @ data) delimiter offset = index" "0 \<le> index"
  shows "receive_until_loop delimiter max_size offset buf h
           = Some (Inr (take (nat index) (buf @ data)), snd (recv (nat (index + 1)) NoFlags h))"
  using assms by (subst receive_until_loop.simps) (simp add: Let_def)

lemma receive_until_loop_next:
  assumes "int (length buf) < max_size"
    and "data = fst (recv (nat (max_size - int (length buf))) MSG_PEEK h)"
    and "bytes_find (buf @ data) delimiter offset = - 1"
  shows "receive_until_loop delimiter max_size offset buf h
           = receive_until_loop delimiter max_size
               (offset + (int (length data) - int (length delimiter) + 1)) (buf @ data)
               (snd (recv (length data) NoFlags h))"
  using assms by (subst receive_until_loop.simps) (simp add: Let_def)

lemma sublist_prefix_of:
  assumes "sublist sub (take k xs)" shows "sublist sub xs"
  using assms by (metis append_take_drop_id sublist_append_rightI sublist_order.order_trans sublist_appendI sublist_order.dual_order.refl)

subsection \<open>The delimiter is absent\<close>

text \<open>
  The loop invariant for a stream without the delimiter: \<open>buf\<close> and the bytes still in the
  handle make up the stream, and \<open>buf\<close> has not outgrown \<open>max_size\<close>.
\<close>

lemma receive_until_loop_not_found:
  assumes "int (length buf) \<le> max_size"
    and "max_size \<le> int (length buf + length (concat (incoming h)))"
    and "\<not> sublist delimiter (take (nat max_size) (buf @ concat (incoming h)))"
  shows "map_option fst (receive_until_loop delimiter max_size offset buf h)
           = Some (Inl (DelimiterNotFound (take (nat max_size) (buf @ concat (incoming h))) False))"
  using assms
proof (induction "length (concat (incoming h)) + length (incoming h)"
        arbitrary: offset buf h rule: less_induct)
  case less
  let ?S = "buf @ concat (incoming h)"
  show ?case
  proof (cases "int (length buf) < max_size")
    case False
    with less.prems(1) have "length buf = nat max_size" by simp
    then have "take (nat max_size) ?S = buf" by simp
    with False show ?thesis by (simp add: receive_until_loop_full)
  next
    case True
    define n where "n = nat (max_size - int (length buf))"
    define data where "data = fst (recv n MSG_PEEK h)"
    define h' where "h' = snd (recv (length data) NoFlags h)"
    have n: "0 < n" using True by (simp add: n_def)
    have ne: "incoming h \<noteq> []"
      using True less.prems(2) by auto
    have S: "concat (incoming h) = data @ concat (incoming h')"
      and len: "length data \<le> n"
      and dec: "length (concat (incoming h')) + length (incoming h')
                  < length (concat (incoming h)) + length (incoming h)"
      unfolding data_def h'_def using peek_consume [where n = n and h = h] ne n by simp_all
    have S': "(buf @ data) @ concat (incoming h') = ?S" using S by simp
    have le': "int (length (buf @ data)) \<le> max_size"
      using len True by (simp add: n_def)
    have "buf @ data = take (length (buf @ data)) (take (nat max_size) ?S)"
      using le' S by (simp add: min_def)
    then have nosub: "\<not> sublist delimiter (buf @ data)"
      using less.prems(3) sublist_prefix_of by metis
    have nf: "bytes_find (buf @ data) delimiter offset = - 1"
      using nosub by (rule bytes_find_none)
    have step: "receive_until_loop delimiter max_size offset buf h
           = receive_until_loop delimiter max_size
               (offset + (int (length data) - int (length delimiter) + 1)) (buf @ data) h'"
      unfolding h'_def
      by (rule receive_until_loop_next [OF True _ nf]) (simp add: data_def n_def)
    have "map_option fst (receive_until_loop delimiter max_size
               (offset + (int (length data) - int (length delimiter) + 1)) (buf @ data) h')
           = Some (Inl (DelimiterNotFound
                (take (nat max_size) ((buf @ data) @ concat (incoming h'))) False))"
    proof (rule less.hyps [OF dec le'])
      show "max_size \<le> int (length (buf @ data) + length (concat (incoming h')))"
        using less.prems(2) S by simp
      show "\<not> sublist delimiter (take (nat max_size) ((buf @ data) @ concat (incoming h')))"
        using less.prems(3) S' by simp
    qed
    with step S' show ?thesis by simp
  qed
qed

text \<open>
  When the incoming stream delivers at least \<open>max_size\<close> bytes and the delimiter does not
  occur within its first \<open>max_size\<close> bytes, \<open>receive_until\<close> fails with \<open>DelimiterNotFound\<close>
  carrying the first \<open>max_size\<close> bytes of the stream, for every fragmentation.
\<close>

lemma receive_until_delimiter_not_found:
  assumes "0 \<le> max_size"
    and "max_size \<le> int (length (concat (incoming h)))"
    and "\<not> sublist delimiter (take (nat max_size) (concat (incoming h)))"
  shows "map_option fst (receive_until delimiter max_size h)
           = Some (Inl (DelimiterNotFound (take (nat max_size) (concat (incoming h))) False))
         \<and> int (length (take (nat max_size) (concat (incoming h)))) \<le> max_size"
  using assms receive_until_loop_not_found [of "[]" max_size h delimiter 0]
  by (simp add: receive_until_def)

lemma receive_until_delimiter_not_found_example:
  "map_option fst
     (receive_until [CHR 0x0A] 5
        \<lparr>incoming = [''abc'', ''def''], outgoing = [], write_cap = (\<lambda>k. 1), writes = 0,
         closes = 0\<rparr>)
   = Some (Inl (DelimiterNotFound ''abcde'' False))
   \<and> length ''abcde'' \<le> 5"
  using receive_until_delimiter_not_found [of 5
     "\<lparr>incoming = [''abc'', ''def''], outgoing = [], write_cap = (\<lambda>k. 1), writes = 0,
         closes = 0\<rparr>" "[CHR 0x0A]"]
  by (simp add: sublist_code)

text \<open>
  Whenever \<open>receive_until\<close> fails with \<open>DelimiterNotFound\<close>, the attached buffer has at most
  \<open>max_size\<close> bytes.
\<close>

lemma receive_until_loop_partial_bounded:
  assumes "receive_until_loop delimiter max_size offset buf h = Some y"
  shows "int (length buf) \<le> max_size \<longrightarrow>
           (\<forall>partial b. fst y = Inl (DelimiterNotFound partial b) \<longrightarrow>
              int (length partial) \<le> max_size)"
  using assms
proof (rule receive_until_loop.raw_induct [rotated,
        where P = "\<lambda>delimiter max_size offset buf h y. int (length buf) \<le> max_size \<longrightarrow>
           (\<forall>partial b. fst y = Inl (DelimiterNotFound partial b) \<longrightarrow>
              int (length partial) \<le> max_size)"])
  fix loop :: "string \<Rightarrow> int \<Rightarrow> int \<Rightarrow> string \<Rightarrow> handle \<Rightarrow> ((exc + string) \<times> handle) option"
    and delimiter max_size offset buf h y
  assume IH: "\<And>delimiter max_size offset buf h y. loop delimiter max_size offset buf h = Some y
          \<Longrightarrow> int (length buf) \<le> max_size \<longrightarrow>
           (\<forall>partial b. fst y = Inl (DelimiterNotFound partial b) \<longrightarrow>
              int (length partial) \<le> max_size)"
    and eq: "(if int (length buf) < max_size
      then
        let read_size = max_size - int (length buf);
            data = fst (recv (nat read_size) MSG_PEEK h);
            buf' = buf @ data;
            index = bytes_find buf' delimiter offset
        in if 0 \<le> index
           then Some (Inr (take (nat index) buf'), snd (recv (nat (index + 1)) NoFlags h))
           else loop delimiter max_size
                  (offset + (int (length data) - int (length delimiter) + 1)) buf'
                  (snd (recv (length data) NoFlags h))
      else Some (Inl (DelimiterNotFound buf False), h)) = Some y"
  show "int (length buf) \<le> max_size \<longrightarrow>
           (\<forall>partial b. fst y = Inl (DelimiterNotFound partial b) \<longrightarrow>
              int (length partial) \<le> max_size)"
  proof (cases "int (length buf) < max_size")
    case False
    with eq show ?thesis by auto
  next
    case True
    define data where "data = fst (recv (nat (max_size - int (length buf))) MSG_PEEK h)"
    have len: "int (length (buf @ data)) \<le> max_size"
      using length_recv [of "nat (max_size - int (length buf))" MSG_PEEK h] True
      by (simp add: data_def)
    show ?thesis
    proof (cases "0 \<le> bytes_find (buf @ data) delimiter offset")
      case found: True
      with eq True show ?thesis by (auto simp: Let_def data_def)
    next
      case False
      with eq True have "loop delimiter max_size
                  (offset + (int (length data) - int (length delimiter) + 1)) (buf @ data)
                  (snd (recv (length data) NoFlags h)) = Some y"
        by (simp add: Let_def data_def)
      from IH [OF this] len show ?thesis by blast
    qed
  qed
qed

lemma receive_until_partial_bounded:
  assumes "0 \<le> max_size"
    and "receive_until delimiter max_size h = Some (Inl (DelimiterNotFound partial b), h')"
  shows "int (length partial) \<le> max_size"
  using receive_until_loop_partial_bounded [of delimiter max_size 0 "[]" h
          "(Inl (DelimiterNotFound partial b), h')"] assms
  by (simp add: receive_until_def)

text \<open>
  A stream that ends before \<open>max_size\<close> bytes have arrived, without the delimiter: the
  closed handle gives zero bytes, \<open>buf\<close> stays as it is, the delimiter is still not found,
  and the loop goes round again. A call that returns has not met this state.
\<close>

lemma receive_until_loop_Some_open:
  assumes "receive_until_loop delimiter max_size offset buf h = Some y"
  shows "\<not> (incoming h = [] \<and> int (length buf) < max_size \<and> \<not> sublist delimiter buf)"
  using assms
proof (rule receive_until_loop.raw_induct [rotated,
        where P = "\<lambda>delimiter max_size offset buf h y.
          \<not> (incoming h = [] \<and> int (length buf) < max_size \<and> \<not> sublist delimiter buf)"])
  fix loop :: "string \<Rightarrow> int \<Rightarrow> int \<Rightarrow> string \<Rightarrow> handle \<Rightarrow> ((exc + string) \<times> handle) option"
    and delimiter max_size offset buf h y
  assume IH: "\<And>delimiter max_size offset buf h y. loop delimiter max_size offset buf h = Some y
          \<Longrightarrow> \<not> (incoming h = [] \<and> int (length buf) < max_size \<and> \<not> sublist delimiter buf)"
    and eq: "(if int (length buf) < max_size
      then
        let read_size = max_size - int (length buf);
            data = fst (recv (nat read_size) MSG_PEEK h);
            buf' = buf @ data;
            index = bytes_find buf' delimiter offset
        in if 0 \<le> index
           then Some (Inr (take (nat index) buf'), snd (recv (nat (index + 1)) NoFlags h))
           else loop delimiter max_size
                  (offset + (int (length data) - int (length delimiter) + 1)) buf'
                  (snd (recv (length data) NoFlags h))
      else Some (Inl (DelimiterNotFound buf False), h)) = Some y"
  show "\<not> (incoming h = [] \<and> int (length buf) < max_size \<and> \<not> sublist delimiter buf)"
  proof
    assume a: "incoming h = [] \<and> int (length buf) < max_size \<and> \<not> sublist delimiter buf"
    then have nf: "bytes_find buf delimiter offset = - 1" by (simp add: bytes_find_none)
    from a eq have "loop delimiter max_size (offset + (0 - int (length delimiter) + 1)) buf h
                      = Some y"
      by (simp add: recv_closed nf Let_def)
    from IH [OF this] a show False by simp
  qed
qed

lemma receive_until_loop_closed:
  assumes "incoming h = []" "int (length buf) < max_size" "\<not> sublist delimiter buf"
  shows "receive_until_loop delimiter max_size offset buf h = None"
  using receive_until_loop_Some_open [of delimiter max_size offset buf h] assms
  by (cases "receive_until_loop delimiter max_size offset buf h") auto

text \<open>
  Claim C6. The claim: when the delimiter does not occur within \<open>max_size\<close> bytes of the
  incoming stream, \<open>receive_until\<close> fails with \<open>DelimiterNotFound\<close> carrying the bytes
  accumulated so far. The code at the delimiter LF, \<open>max_size = 10\<close> and a peer that sends
  \<open>ab\<close> and closes: the call neither fails nor returns.
\<close>

theorem receive_until_hangs_on_close:
  "receive_until [CHR 0x0A] 10
     \<lparr>incoming = [''ab''], outgoing = [], write_cap = (\<lambda>k. 1), writes = 0, closes = 0\<rparr>
   = None"
  unfolding receive_until_def
  apply (subst receive_until_loop.simps)
  apply (simp add: recv_def bytes_find_def Let_def)
  apply (rule receive_until_loop_closed)
    apply (simp_all add: sublist_code)
  done

subsection \<open>The delimiter is present\<close>

lemma prefix_drop_append:
  assumes "q \<le> length xs"
  shows "drop q (xs @ ys) = drop q xs @ ys"
  using assms by simp

text \<open>
  The loop invariant for a stream whose first delimiter occurrence starts at \<open>p\<close>: the
  occurrence is not yet whole in \<open>buf\<close>, and the offset is not negative, not beyond \<open>p\<close>
  and not beyond the end of \<open>buf\<close>.
\<close>

lemma receive_until_loop_finds:
  assumes "delimiter \<noteq> []"
    and "prefix delimiter (drop p (buf @ concat (incoming h)))"
    and "\<forall>q<p. \<not> prefix delimiter (drop q (buf @ concat (incoming h)))"
    and "int (p + length delimiter) \<le> max_size"
    and "length buf < p + length delimiter"
    and "0 \<le> offset" "offset \<le> int p" "offset \<le> int (length buf)"
    and "\<forall>f\<in>set (incoming h). length delimiter \<le> Suc (length f)"
  shows "map_option fst (receive_until_loop delimiter max_size offset buf h)
           = Some (Inr (take p (buf @ concat (incoming h))))"
  using assms
proof (induction "length (concat (incoming h)) + length (incoming h)"
        arbitrary: offset buf h rule: less_induct)
  case less
  let ?S = "buf @ concat (incoming h)"
  let ?d = "length delimiter"
  have d: "0 < ?d" using less.prems(1) by simp
  have run: "int (length buf) < max_size" using less.prems(4,5) by linarith
  define n where "n = nat (max_size - int (length buf))"
  define data where "data = fst (recv n MSG_PEEK h)"
  define h' where "h' = snd (recv (length data) NoFlags h)"
  have n: "0 < n" using run by (simp add: n_def)
  have "?d \<le> length (drop p ?S)"
    using less.prems(2) by (rule prefix_length_le)
  then have "?d \<le> length ?S - p"
    by (simp only: length_drop)
  then have lenS: "p + ?d \<le> length ?S"
    using d by linarith
  have ne: "incoming h \<noteq> []"
    using lenS less.prems(5) by auto
  have S: "concat (incoming h) = data @ concat (incoming h')"
    and len: "length data \<le> n"
    and dec: "length (concat (incoming h')) + length (incoming h')
                < length (concat (incoming h)) + length (incoming h)"
    unfolding data_def h'_def using peek_consume [where n = n and h = h] ne n by simp_all
  let ?buf' = "buf @ data"
  have S': "?buf' @ concat (incoming h') = ?S" using S by simp
  have data: "data = fst (recv (nat (max_size - int (length buf))) MSG_PEEK h)"
    by (simp add: data_def n_def)
  have occ_S: "prefix delimiter (drop j ?S)" if "prefix delimiter (drop j ?buf')" for j
  proof -
    from that d have "j \<le> length ?buf'"
      using less.prems(1) by (metis drop_all nat_le_linear prefix_bot.extremum_uniqueI)
    then have "drop j ?S = drop j ?buf' @ concat (incoming h')"
      using S' by (metis prefix_drop_append)
    with that show ?thesis by (metis prefix_prefix)
  qed
  show ?case
  proof (cases "p + ?d \<le> length ?buf'")
    case True
    then have pl: "p \<le> length ?buf'" by simp
    have "drop p ?S = drop p ?buf' @ concat (incoming h')"
      using S' pl by (metis prefix_drop_append)
    moreover have "?d \<le> length (drop p ?buf')" using True by simp
    ultimately have occ: "prefix delimiter (drop p ?buf')"
      using less.prems(2) by (metis prefix_length_prefix prefixI)
    have first: "\<forall>q<p. \<not> prefix delimiter (drop q ?buf')"
      using less.prems(3) occ_S by blast
    have "bytes_find ?buf' delimiter offset = int p"
      using occ first less.prems(6,7) pl by (rule bytes_find_first)
    then have "receive_until_loop delimiter max_size offset buf h
                 = Some (Inr (take (nat (int p)) ?buf'), snd (recv (nat (int p + 1)) NoFlags h))"
      using receive_until_loop_found [OF run data, of delimiter offset "int p"] by simp
    moreover have "take p ?buf' = take p ?S" using pl S' by (metis take_append append.assoc diff_is_0_eq take_0 append_Nil2)
    ultimately show ?thesis by simp
  next
    case False
    then have short: "length ?buf' < p + ?d" by simp
    have nosub: "\<not> sublist delimiter ?buf'"
    proof
      assume "sublist delimiter ?buf'"
      then obtain j where j: "prefix delimiter (drop j ?buf')"
        by (auto simp: sublist_iff_prefix_drop)
      then have "?d \<le> length (drop j ?buf')" by (rule prefix_length_le)
      then have "?d \<le> length ?buf' - j" by (simp only: length_drop)
      with short d have "j < p" by linarith
      with less.prems(3) occ_S [OF j] show False by blast
    qed
    have nf: "bytes_find ?buf' delimiter offset = - 1"
      using nosub by (rule bytes_find_none)
    have step: "receive_until_loop delimiter max_size offset buf h
           = receive_until_loop delimiter max_size
               (offset + (int (length data) - int ?d + 1)) ?buf' h'"
      unfolding h'_def by (rule receive_until_loop_next [OF run data nf])
    have "length data < n"
      using short less.prems(4) by (simp add: n_def)
    then have "data = hd (incoming h) \<and> incoming h' = tl (incoming h)"
      unfolding data_def h'_def by (rule peek_consume(4) [OF ne])
    then have whole: "data = hd (incoming h)" "incoming h' = tl (incoming h)"
      by simp_all
    have "hd (incoming h) \<in> set (incoming h)" using ne by simp
    then have big: "?d \<le> Suc (length data)" using less.prems(9) whole(1) by simp
    let ?offset' = "offset + (int (length data) - int ?d + 1)"
    have "map_option fst (receive_until_loop delimiter max_size ?offset' ?buf' h')
            = Some (Inr (take p (?buf' @ concat (incoming h'))))"
    proof (rule less.hyps [OF dec less.prems(1)])
      show "prefix delimiter (drop p (?buf' @ concat (incoming h')))"
        using less.prems(2) S' by simp
      show "\<forall>q<p. \<not> prefix delimiter (drop q (?buf' @ concat (incoming h')))"
        using less.prems(3) S' by simp
      show "int (p + ?d) \<le> max_size" by (rule less.prems(4))
      show "length ?buf' < p + ?d" by (rule short)
      show "0 \<le> ?offset'" using less.prems(6) big by linarith
      show "?offset' \<le> int p" using less.prems(8) short by simp
      have "int (length ?buf') = int (length buf) + int (length data)" by simp
      then show "?offset' \<le> int (length ?buf')" using less.prems(8) d by linarith
      show "\<forall>f\<in>set (incoming h'). ?d \<le> Suc (length f)"
        using less.prems(9) whole(2) ne by (metis list.set_sel(2))
    qed
    with step S' show ?thesis by simp
  qed
qed

text \<open>The empty delimiter is found at once, provided that the loop is entered at all.\<close>

lemma bytes_find_empty: "bytes_find buf [] 0 = 0"
  by (cases buf) (simp_all add: bytes_find_def)

lemma receive_until_empty_delimiter:
  assumes "0 < max_size"
  shows "map_option fst (receive_until [] max_size h) = Some (Inr [])"
  using assms
  by (simp add: receive_until_def
        receive_until_loop_found [where index = 0 and buf = "[]", OF _ refl] bytes_find_empty)

text \<open>
  Where the offset stays non-negative the scan is right. For an incoming stream in
  which the first occurrence of the delimiter ends within \<open>max_size\<close> bytes (the
  delimiter counts towards \<open>max_size\<close>, and \<open>max_size\<close> is at least 1), \<open>receive_until\<close>
  returns the bytes strictly before that occurrence, whenever each physical read delivers
  at least \<open>len(delimiter) - 1\<close> bytes. The offset advances by
  \<open>len(data) - len(delimiter) + 1\<close> per round (\<open>receive_until_loop_next\<close>), so a shorter
  read makes it negative.
\<close>

lemma receive_until_before_first_delimiter:
  assumes "prefix delimiter (drop p (concat (incoming h)))"
    and "\<forall>q<p. \<not> prefix delimiter (drop q (concat (incoming h)))"
    and "0 < max_size" "int (p + length delimiter) \<le> max_size"
    and "\<forall>f\<in>set (incoming h). length delimiter \<le> Suc (length f)"
  shows "map_option fst (receive_until delimiter max_size h)
           = Some (Inr (take p (concat (incoming h))))"
proof (cases "delimiter = []")
  case True
  with assms(2) have "p = 0" by (cases p) auto
  with True assms(3) show ?thesis by (simp add: receive_until_empty_delimiter)
next
  case False
  with receive_until_loop_finds [of delimiter p "[]" h max_size 0] assms show ?thesis
    by (simp add: receive_until_def)
qed

lemma receive_until_before_first_delimiter_example:
  "map_option fst
     (receive_until [CHR 0x0D, CHR 0x0A] 10
        \<lparr>incoming = [''a'', ''b'' @ [CHR 0x0D], CHR 0x0A # ''cd''], outgoing = [],
         write_cap = (\<lambda>k. 1), writes = 0, closes = 0\<rparr>)
   = Some (Inr ''ab'')"
proof -
  let ?h = "\<lparr>incoming = [''a'', ''b'' @ [CHR 0x0D], CHR 0x0A # ''cd''], outgoing = [],
         write_cap = (\<lambda>k. 1), writes = 0, closes = 0\<rparr>"
  have 1: "prefix [CHR 0x0D, CHR 0x0A] (drop 2 (concat (incoming ?h)))" by simp
  have 2: "\<forall>q<2. \<not> prefix [CHR 0x0D, CHR 0x0A] (drop q (concat (incoming ?h)))"
    by (simp add: numeral_2_eq_2 less_Suc_eq)
  have 3: "(0::int) < 10" by simp
  have 4: "int (2 + length [CHR 0x0D, CHR 0x0A]) \<le> 10" by simp
  have 5: "\<forall>f\<in>set (incoming ?h). length [CHR 0x0D, CHR 0x0A] \<le> Suc (length f)" by simp
  from receive_until_before_first_delimiter [OF 1 2 3 4 5] show ?thesis by simp
qed

text \<open>
  The loop never reads more than \<open>max_size\<close> bytes, delimiter included: five bytes before
  the delimiter do not fit \<open>max_size = 5\<close>.
\<close>

lemma receive_until_max_size_counts_delimiter:
  "map_option fst
     (receive_until [CHR 0x0A] 5
        \<lparr>incoming = [''abcde'' @ [CHR 0x0A]], outgoing = [],
         write_cap = (\<lambda>k. 1), writes = 0, closes = 0\<rparr>)
   = Some (Inl (DelimiterNotFound ''abcde'' False))"
  by code_simp

text \<open>
  Claim C5. The claim: for a fixed incoming stream, \<open>receive_until\<close> returns the same
  bytes, those strictly before the first delimiter occurrence, for every fragmentation
  of the stream, and a delimiter that straddles a round boundary is never missed. The
  code, where a round is shorter than \<open>len(delimiter) - 1\<close> bytes: the offset becomes
  negative, and \<open>find\<close> counts a negative start from the end of the buffer. With the
  delimiter \<open>END\<close>, \<open>max_size = 4\<close> and the stream \<open>hEND\<close> the call returns \<open>h\<close> when the
  stream arrives in one read, and fails when it arrives as \<open>h\<close> and \<open>END\<close>. With the
  delimiter \<open>ABCDE\<close>, \<open>max_size = 20\<close> and the stream \<open>xyABCDEzzABCDE\<close> it returns \<open>xy\<close>
  when the stream arrives in one read, and \<open>xyABCDEzz\<close> when it arrives as \<open>x\<close>, \<open>y\<close> and
  the rest: the first occurrence is missed and the second one found.
\<close>

theorem receive_until_depends_on_fragmentation:
  "map_option fst
     (receive_until ''END'' 4
        \<lparr>incoming = [''hEND''], outgoing = [],
         write_cap = (\<lambda>k. 1), writes = 0, closes = 0\<rparr>)
   = Some (Inr ''h'')
   \<and> map_option fst
     (receive_until ''END'' 4
        \<lparr>incoming = [''h'', ''END''], outgoing = [],
         write_cap = (\<lambda>k. 1), writes = 0, closes = 0\<rparr>)
   = Some (Inl (DelimiterNotFound ''hEND'' False))
   \<and> map_option fst
     (receive_until ''ABCDE'' 20
        \<lparr>incoming = [''xyABCDEzzABCDE''], outgoing = [],
         write_cap = (\<lambda>k. 1), writes = 0, closes = 0\<rparr>)
   = Some (Inr ''xy'')
   \<and> map_option fst
     (receive_until ''ABCDE'' 20
        \<lparr>incoming = [''x'', ''y'', ''ABCDEzzABCDE''], outgoing = [],
         write_cap = (\<lambda>k. 1), writes = 0, closes = 0\<rparr>)
   = Some (Inr ''xyABCDEzz'')"
  by code_simp

end
